theory Spec2Isabelle
  imports Main "HOL-Library.Word" "HOL-Library.Sublist"
begin

section \<open>The statement splitter of d1-exporter (src/src/main.ts)\<close>

text \<open>
  A JavaScript string is a sequence of 16-bit code units. \<open>s[i]\<close> is the one-unit
  string at index \<open>i\<close>; the empty string \<open>''\<close> is the empty list.
\<close>

type_synonym cu = "16 word"
type_synonym jsstring = "cu list"

text \<open>ASCII text as a JavaScript string (each character is one code unit).\<close>

definition js :: "string \<Rightarrow> jsstring" where
  "js = map of_char"

text \<open>
  \<open>String.prototype.trim\<close> (ECMAScript): removes the WhiteSpace and LineTerminator
  code points from both ends: TAB, LF, VT, FF, CR, SP, NBSP, U+1680, U+2000..U+200A,
  U+2028, U+2029, U+202F, U+205F, U+3000, U+FEFF.
\<close>

definition isWs :: "cu \<Rightarrow> bool" where
  "isWs c = (c = 0x09 \<or> c = 0x0A \<or> c = 0x0B \<or> c = 0x0C \<or> c = 0x0D \<or> c = 0x20
    \<or> c = 0xA0 \<or> c = 0x1680 \<or> (0x2000 \<le> c \<and> c \<le> 0x200A) \<or> c = 0x2028
    \<or> c = 0x2029 \<or> c = 0x202F \<or> c = 0x205F \<or> c = 0x3000 \<or> c = 0xFEFF)"

definition trim :: "jsstring \<Rightarrow> jsstring" where
  "trim s = rev (dropWhile isWs (rev (dropWhile isWs s)))"

subsection \<open>Context and result records\<close>

record CommentContext =
  cc_inString :: bool
  cc_inComment :: bool

record StringContext =
  sc_inString :: bool
  sc_stringChar :: jsstring

record CommentResult =
  c_shouldContinue :: bool
  newInComment :: bool

record StringResult =
  s_shouldContinue :: bool
  newInString :: bool
  newStringChar :: jsstring

subsection \<open>handleComments, handleStrings\<close>

text \<open>
  The code units compared against: \<open>'-'\<close> is 0x2D, \<open>'\n'\<close> is 0x0A, \<open>'\r'\<close> is 0x0D,
  the single quote is 0x27, the double quote is 0x22, the backslash is 0x5C and
  \<open>';'\<close> is 0x3B.
\<close>

definition handleComments :: "jsstring \<Rightarrow> jsstring \<Rightarrow> CommentContext \<Rightarrow> CommentResult" where
  "handleComments char nextChar context =
     (if \<not> cc_inString context \<and> char = [0x2D] \<and> nextChar = [0x2D]
      then \<lparr>c_shouldContinue = True, newInComment = True\<rparr>
      else if cc_inComment context \<and> (char = [0x0A] \<or> char = [0x0D])
      then \<lparr>c_shouldContinue = True, newInComment = False\<rparr>
      else \<lparr>c_shouldContinue = False, newInComment = cc_inComment context\<rparr>)"

definition handleStrings :: "jsstring \<Rightarrow> jsstring \<Rightarrow> StringContext \<Rightarrow> StringResult" where
  "handleStrings char prevChar context =
     (if \<not> sc_inString context \<and> (char = [0x27] \<or> char = [0x22])
      then \<lparr>s_shouldContinue = True, newInString = True, newStringChar = char\<rparr>
      else if sc_inString context \<and> char = sc_stringChar context \<and> prevChar \<noteq> [0x5C]
      then \<lparr>s_shouldContinue = True, newInString = False, newStringChar = []\<rparr>
      else \<lparr>s_shouldContinue = False, newInString = sc_inString context,
             newStringChar = sc_stringChar context\<rparr>)"

subsection \<open>splitSqlStatements\<close>

text \<open>The local variables of \<open>splitSqlStatements\<close>.\<close>

record scan =
  statements :: "jsstring list"
  currentStatement :: jsstring
  inString :: bool
  inComment :: bool
  stringChar :: jsstring

definition init :: scan where
  "init = \<lparr>statements = [], currentStatement = [], inString = False, inComment = False,
           stringChar = []\<rparr>"

text \<open>
  One iteration of the loop body, given \<open>char\<close>, \<open>nextChar\<close> and \<open>prevChar\<close>. Each
  \<open>continue\<close> of the source is a branch that returns the state reached so far.
\<close>

definition iteration :: "jsstring \<Rightarrow> jsstring \<Rightarrow> jsstring \<Rightarrow> scan \<Rightarrow> scan" where
  "iteration char nextChar prevChar st0 =
     (let st = st0\<lparr>currentStatement := currentStatement st0 @ char\<rparr>;
          commentResult = handleComments char nextChar
                            \<lparr>cc_inString = inString st, cc_inComment = inComment st\<rparr>
      in if c_shouldContinue commentResult
         then st\<lparr>inComment := newInComment commentResult\<rparr>
         else if inComment st then st
         else
           let stringResult = handleStrings char prevChar
                                \<lparr>sc_inString = inString st, sc_stringChar = stringChar st\<rparr>
           in if s_shouldContinue stringResult
              then st\<lparr>inString := newInString stringResult,
                      stringChar := newStringChar stringResult\<rparr>
              else if inString st then st
              else if char = [0x3B]
              then st\<lparr>statements := statements st @ [trim (currentStatement st)],
                      currentStatement := []\<rparr>
              else st)"

text \<open>
  The three characters of iteration \<open>i\<close>: \<open>sqlContent[i]\<close>, \<open>sqlContent[i + 1] || ''\<close>
  (an index past the end gives \<open>undefined\<close>, replaced by \<open>''\<close>; a one-unit string is
  never falsy) and \<open>i > 0 ? sqlContent[i - 1] : ''\<close>. The loop runs the body only
  for \<open>i < sqlContent.length\<close>, where \<open>sqlContent[i]\<close> is defined.
\<close>

definition charAt :: "jsstring \<Rightarrow> nat \<Rightarrow> jsstring" where
  "charAt sqlContent i = [sqlContent ! i]"

definition nextCharAt :: "jsstring \<Rightarrow> nat \<Rightarrow> jsstring" where
  "nextCharAt sqlContent i = (if Suc i < length sqlContent then [sqlContent ! Suc i] else [])"

definition prevCharAt :: "jsstring \<Rightarrow> nat \<Rightarrow> jsstring" where
  "prevCharAt sqlContent i = (if 0 < i then [sqlContent ! (i - 1)] else [])"

definition body :: "jsstring \<Rightarrow> nat \<Rightarrow> scan \<Rightarrow> scan" where
  "body sqlContent i st =
     iteration (charAt sqlContent i) (nextCharAt sqlContent i) (prevCharAt sqlContent i) st"

text \<open>
  \<open>run sqlContent n\<close> is the state of the variables after the iterations
  \<open>i = 0, ..., n - 1\<close> of the \<open>for\<close> loop, that is, on reaching character position \<open>n\<close>.
  The loop ends with \<open>n = sqlContent.length\<close>.
\<close>

primrec run :: "jsstring \<Rightarrow> nat \<Rightarrow> scan" where
  "run sqlContent 0 = init"
| "run sqlContent (Suc n) = body sqlContent n (run sqlContent n)"

text \<open>After the loop: the last statement is added when its trimmed text is not empty.\<close>

definition finish :: "scan \<Rightarrow> jsstring list" where
  "finish st =
     (if trim (currentStatement st) \<noteq> []
      then statements st @ [trim (currentStatement st)]
      else statements st)"

definition splitSqlStatements :: "jsstring \<Rightarrow> jsstring list" where
  "splitSqlStatements sqlContent = finish (run sqlContent (length sqlContent))"

subsection \<open>Derived notions used to state the properties\<close>

text \<open>
  Iteration \<open>i\<close> is a statement boundary when it reaches the \<open>statements.push\<close> of
  the loop, that is, when it changes \<open>statements\<close>.
\<close>

definition boundaryAt :: "jsstring \<Rightarrow> nat \<Rightarrow> bool" where
  "boundaryAt sqlContent i =
     (i < length sqlContent \<and>
      statements (run sqlContent (Suc i)) \<noteq> statements (run sqlContent i))"

text \<open>
  The same scan as a recursion over the characters still to be read: \<open>prevChar\<close> is the
  character before them and \<open>following\<close> is what \<open>nextChar\<close> is at their last
  character. It is proved equal to \<open>run\<close> below and used to reason about inputs
  that are concatenations.
\<close>

fun scanFrom :: "scan \<Rightarrow> jsstring \<Rightarrow> jsstring \<Rightarrow> jsstring \<Rightarrow> scan" where
  "scanFrom st prevChar [] following = st"
| "scanFrom st prevChar (c # cs) following =
     scanFrom (iteration [c] (case cs of [] \<Rightarrow> following | d # _ \<Rightarrow> [d]) prevChar st)
       [c] cs following"

text \<open>
  A segment is a piece of input whose scan from the initial state pushes exactly one
  statement, at its last character. An open tail is a piece whose scan pushes none.
  \<open>lastStatement\<close> is what the code after the loop adds for an open tail.
\<close>

definition segment :: "jsstring \<Rightarrow> bool" where
  "segment b \<longleftrightarrow> scanFrom init [] b [] = init\<lparr>statements := [trim b]\<rparr>"

definition openTail :: "jsstring \<Rightarrow> bool" where
  "openTail t \<longleftrightarrow> statements (scanFrom init [] t []) = []"

definition lastStatement :: "jsstring \<Rightarrow> jsstring list" where
  "lastStatement t = (if trim t \<noteq> [] then [trim t] else [])"

text \<open>
  \<open>reconstructs xs s\<close>: \<open>s\<close> is the concatenation of the strings \<open>xs\<close>, in order, up
  to whitespace around each of them.
\<close>

fun reconstructs :: "jsstring list \<Rightarrow> jsstring \<Rightarrow> bool" where
  "reconstructs [] s = list_all isWs s"
| "reconstructs (x # xs) s =
     (let r = dropWhile isWs s
      in take (length x) r = x \<and> reconstructs xs (drop (length x) r))"

section \<open>Properties\<close>

subsection \<open>One iteration\<close>

lemmas iteration_defs = iteration_def handleComments_def handleStrings_def Let_def

lemma iteration_inString_statements:
  "inString st \<Longrightarrow> statements (iteration c n p st) = statements st"
  by (simp add: iteration_defs)

lemma iteration_inComment_statements:
  "inComment st \<Longrightarrow> statements (iteration c n p st) = statements st"
  by (simp add: iteration_defs)

lemma iteration_exclusive:
  "\<not> (inString st \<and> inComment st) \<Longrightarrow>
   \<not> (inString (iteration c n p st) \<and> inComment (iteration c n p st))"
  by (auto simp add: iteration_defs split: if_splits)

lemma run_exclusive: "\<not> (inString (run s n) \<and> inComment (run s n))"
proof (induction n)
  case 0
  show ?case by (simp add: init_def)
next
  case (Suc n)
  then show ?case unfolding run.simps body_def by (rule iteration_exclusive)
qed

lemma iteration_push:
  "\<not> inString st \<Longrightarrow> \<not> inComment st \<Longrightarrow>
   iteration [0x3B] n p st =
     st\<lparr>statements := statements st @ [trim (currentStatement st @ [0x3B])],
        currentStatement := []\<rparr>"
  by (simp add: iteration_defs)

lemma trim_snoc_nonws: "\<not> isWs c \<Longrightarrow> trim (xs @ [c]) \<noteq> [] \<and> last (trim (xs @ [c])) = c"
  by (simp add: trim_def dropWhile_append)

lemma not_ws_semicolon: "\<not> isWs 0x3B"
  by (simp add: isWs_def)

lemma iteration_string_start:
  "\<not> inString st \<Longrightarrow> \<not> inComment st \<Longrightarrow> c = 0x27 \<or> c = 0x22 \<Longrightarrow>
   iteration [c] n p st =
     st\<lparr>currentStatement := currentStatement st @ [c], inString := True, stringChar := [c]\<rparr>"
  by (auto simp add: iteration_defs)

lemma not_ws_quote: "c = 0x27 \<or> c = 0x22 \<Longrightarrow> \<not> isWs c"
  by (auto simp add: isWs_def)

subsection \<open>Consecutive terminators\<close>

text \<open>
  C1 as stated fails: for \<open>A;;B;\<close> the result is not \<open>[A;, B;]\<close>.
\<close>

theorem consecutive_terminators_counterexample:
  "splitSqlStatements (js ''A;;B;'') \<noteq> [js ''A;'', js ''B;'']"
  by code_simp

text \<open>
  C1, amended: for \<open>A;;B;\<close> the result is \<open>[A;, ;, B;]\<close>. Every terminator reached
  outside strings and comments pushes the trimmed buffer with the terminator attached,
  which is never empty, so the statement between two consecutive terminators is \<open>;\<close>
  and is emitted.
\<close>

theorem consecutive_terminators_emitted:
  "splitSqlStatements (js ''A;;B;'') = [js ''A;'', js '';'', js ''B;''] \<and>
   (i < length s \<and> s ! i = 0x3B \<and> \<not> inString (run s i) \<and> \<not> inComment (run s i) \<longrightarrow>
      statements (run s (Suc i)) =
        statements (run s i) @ [trim (currentStatement (run s i) @ [0x3B])] \<and>
      trim (currentStatement (run s i) @ [0x3B]) \<noteq> [])"
proof
  show "splitSqlStatements (js ''A;;B;'') = [js ''A;'', js '';'', js ''B;'']"
    by code_simp
  show "i < length s \<and> s ! i = 0x3B \<and> \<not> inString (run s i) \<and> \<not> inComment (run s i) \<longrightarrow>
     statements (run s (Suc i)) =
       statements (run s i) @ [trim (currentStatement (run s i) @ [0x3B])] \<and>
     trim (currentStatement (run s i) @ [0x3B]) \<noteq> []"
    using trim_snoc_nonws[OF not_ws_semicolon]
    by (simp add: body_def charAt_def iteration_push)
qed

theorem consecutive_terminators_emitted_witness:
  "statements (run (js ''A;;B;'') 3) = statements (run (js ''A;;B;'') 2) @ [js '';'']"
proof -
  have h: "2 < length (js ''A;;B;'') \<and> js ''A;;B;'' ! 2 = 0x3B \<and>
           \<not> inString (run (js ''A;;B;'') 2) \<and> \<not> inComment (run (js ''A;;B;'') 2)"
    by code_simp
  have t: "trim (currentStatement (run (js ''A;;B;'') 2) @ [0x3B]) = js '';''"
    by code_simp
  have n: "Suc 2 = 3" by simp
  from consecutive_terminators_emitted[of 2 "js ''A;;B;''"] h t n show ?thesis
    by (simp del: run.simps)
qed

subsection \<open>Terminators inside strings\<close>

lemma iteration_inString_stays:
  "inString st \<Longrightarrow> \<not> inComment st \<Longrightarrow> stringChar st \<noteq> [c] \<Longrightarrow>
   inString (iteration [c] n p st) \<and> stringChar (iteration [c] n p st) = stringChar st"
  by (simp add: iteration_defs)

text \<open>
  C3: string mode starts at a single or double quote met outside strings and comments
  and lasts at least until the same quote character comes again; a \<open>;\<close> met while
  \<open>inString\<close> holds is not a statement boundary, and
  \<open>INSERT INTO t VALUES ('a;b');\<close> is split into exactly one statement.
\<close>

theorem terminator_in_string_no_boundary:
  "(i < length s \<and> \<not> inString (run s i) \<and> \<not> inComment (run s i) \<and>
    (s ! i = 0x27 \<or> s ! i = 0x22) \<longrightarrow>
      inString (run s (Suc i)) \<and> stringChar (run s (Suc i)) = [s ! i]) \<and>
   (i < length s \<and> inString (run s i) \<and> stringChar (run s i) \<noteq> [s ! i] \<longrightarrow>
      inString (run s (Suc i)) \<and> stringChar (run s (Suc i)) = stringChar (run s i)) \<and>
   (i < length s \<and> s ! i = 0x3B \<and> inString (run s i) \<longrightarrow> \<not> boundaryAt s i) \<and>
   splitSqlStatements (js ''INSERT INTO t VALUES ('a;b');'') =
     [js ''INSERT INTO t VALUES ('a;b');'']"
proof (intro conjI)
  show "i < length s \<and> \<not> inString (run s i) \<and> \<not> inComment (run s i) \<and>
    (s ! i = 0x27 \<or> s ! i = 0x22) \<longrightarrow>
      inString (run s (Suc i)) \<and> stringChar (run s (Suc i)) = [s ! i]"
    by (simp add: body_def charAt_def iteration_string_start)
  show "i < length s \<and> inString (run s i) \<and> stringChar (run s i) \<noteq> [s ! i] \<longrightarrow>
      inString (run s (Suc i)) \<and> stringChar (run s (Suc i)) = stringChar (run s i)"
    using run_exclusive[of s i] by (simp add: body_def charAt_def iteration_inString_stays)
  show "i < length s \<and> s ! i = 0x3B \<and> inString (run s i) \<longrightarrow> \<not> boundaryAt s i"
    by (simp add: boundaryAt_def body_def iteration_inString_statements)
  show "splitSqlStatements (js ''INSERT INTO t VALUES ('a;b');'') =
     [js ''INSERT INTO t VALUES ('a;b');'']"
    by code_simp
qed

theorem terminator_in_string_no_boundary_witness:
  "inString (run (js ''('a;b')'') 2) \<and> inString (run (js ''('a;b')'') 3) \<and>
   inString (run (js ''('a;b')'') 4) \<and> \<not> boundaryAt (js ''('a;b')'') 3"
proof -
  let ?s = "js ''('a;b')''"
  have h1: "1 < length ?s \<and> \<not> inString (run ?s 1) \<and> \<not> inComment (run ?s 1) \<and>
            (?s ! 1 = 0x27 \<or> ?s ! 1 = 0x22)"
    by code_simp
  have h2: "2 < length ?s \<and> inString (run ?s 2) \<and> stringChar (run ?s 2) \<noteq> [?s ! 2]"
    by code_simp
  have h3: "3 < length ?s \<and> ?s ! 3 = 0x3B \<and> inString (run ?s 3)"
    by code_simp
  have n: "Suc 1 = 2" "Suc 2 = 3" "Suc 3 = 4" by simp_all
  from terminator_in_string_no_boundary[of 1 ?s] h1 have "inString (run ?s (Suc 1))"
    by blast
  then have a: "inString (run ?s 2)" by (simp only: n)
  from terminator_in_string_no_boundary[of 2 ?s] h2 have "inString (run ?s (Suc 2))"
    by blast
  then have b: "inString (run ?s 3)" by (simp only: n)
  from terminator_in_string_no_boundary[of 3 ?s] h3 have c: "\<not> boundaryAt ?s 3"
    by blast
  have d: "inString (run ?s 4)" by code_simp
  from a b c d show ?thesis by blast
qed

lemma iteration_inComment_stays:
  "inComment st \<Longrightarrow> c \<noteq> 0x0A \<Longrightarrow> c \<noteq> 0x0D \<Longrightarrow> inComment (iteration [c] n p st)"
  by (simp add: iteration_defs)

lemma iteration_comment_start:
  "\<not> inString st \<Longrightarrow> inComment (iteration [0x2D] [0x2D] p st)"
  by (simp add: iteration_defs)

subsection \<open>Terminators inside line comments\<close>

text \<open>
  C4: a line comment starts at \<open>--\<close> met outside a string and lasts until a newline or
  carriage return; a \<open>;\<close> met while \<open>inComment\<close> holds is not a statement boundary,
  and the example input (a comment line holding a \<open>;\<close>, a newline, \<open>SELECT 1;\<close>) is
  split into exactly one statement, which keeps the comment line.
\<close>

theorem terminator_in_comment_no_boundary:
  "(Suc i < length s \<and> \<not> inString (run s i) \<and> s ! i = 0x2D \<and> s ! Suc i = 0x2D \<longrightarrow>
      inComment (run s (Suc i))) \<and>
   (i < length s \<and> inComment (run s i) \<and> s ! i \<noteq> 0x0A \<and> s ! i \<noteq> 0x0D \<longrightarrow>
      inComment (run s (Suc i))) \<and>
   (i < length s \<and> s ! i = 0x3B \<and> inComment (run s i) \<longrightarrow> \<not> boundaryAt s i) \<and>
   splitSqlStatements (js ''-- comment ; with terminator'' @ [0x0A] @ js ''SELECT 1;'') =
     [js ''-- comment ; with terminator'' @ [0x0A] @ js ''SELECT 1;'']"
proof (intro conjI)
  show "Suc i < length s \<and> \<not> inString (run s i) \<and> s ! i = 0x2D \<and> s ! Suc i = 0x2D \<longrightarrow>
      inComment (run s (Suc i))"
    by (simp add: body_def charAt_def nextCharAt_def iteration_comment_start)
  show "i < length s \<and> inComment (run s i) \<and> s ! i \<noteq> 0x0A \<and> s ! i \<noteq> 0x0D \<longrightarrow>
      inComment (run s (Suc i))"
    by (simp add: body_def charAt_def iteration_inComment_stays)
  show "i < length s \<and> s ! i = 0x3B \<and> inComment (run s i) \<longrightarrow> \<not> boundaryAt s i"
    by (simp add: boundaryAt_def body_def iteration_inComment_statements)
  show "splitSqlStatements (js ''-- comment ; with terminator'' @ [0x0A] @ js ''SELECT 1;'') =
     [js ''-- comment ; with terminator'' @ [0x0A] @ js ''SELECT 1;'']"
    by code_simp
qed

theorem terminator_in_comment_no_boundary_witness:
  "inComment (run (js ''--a;b'') 1) \<and> inComment (run (js ''--a;b'') 3) \<and>
   \<not> boundaryAt (js ''--a;b'') 3"
proof -
  have h0: "Suc 0 < length (js ''--a;b'') \<and> \<not> inString (run (js ''--a;b'') 0) \<and>
            js ''--a;b'' ! 0 = 0x2D \<and> js ''--a;b'' ! Suc 0 = 0x2D"
    by code_simp
  have h2: "2 < length (js ''--a;b'') \<and> inComment (run (js ''--a;b'') 2) \<and>
            js ''--a;b'' ! 2 \<noteq> 0x0A \<and> js ''--a;b'' ! 2 \<noteq> 0x0D"
    by code_simp
  have h3: "3 < length (js ''--a;b'') \<and> js ''--a;b'' ! 3 = 0x3B \<and>
            inComment (run (js ''--a;b'') 3)"
    by code_simp
  have n: "Suc 0 = 1" "Suc 2 = 3" by simp_all
  from terminator_in_comment_no_boundary[of 0 "js ''--a;b''"] h0 have a: "inComment (run (js ''--a;b'') 1)"
    by (simp del: run.simps)
  from terminator_in_comment_no_boundary[of 2 "js ''--a;b''"] h2 n have b: "inComment (run (js ''--a;b'') 3)"
    by (simp del: run.simps)
  from terminator_in_comment_no_boundary[of 3 "js ''--a;b''"] h3 have c: "\<not> boundaryAt (js ''--a;b'') 3"
    by blast
  from a b c show ?thesis by blast
qed

lemma iteration_escaped_quote:
  "inString st \<Longrightarrow> \<not> inComment st \<Longrightarrow> stringChar st = c \<Longrightarrow>
   iteration c n [0x5C] st = st\<lparr>currentStatement := currentStatement st @ c\<rparr>"
  by (auto simp add: iteration_defs)

subsection \<open>Escaped quotes\<close>

text \<open>
  C6: inside a string, a character equal to the opening quote whose preceding input
  character is a backslash does not leave string mode, and the text
  \<open>SELECT 'it\'s';\<close> is split into exactly one statement.
\<close>

theorem escaped_quote_keeps_string:
  "(0 < i \<and> i < length s \<and> inString (run s i) \<and> stringChar (run s i) = [s ! i] \<and>
    s ! (i - 1) = 0x5C \<longrightarrow>
      inString (run s (Suc i)) \<and> stringChar (run s (Suc i)) = stringChar (run s i) \<and>
      \<not> boundaryAt s i) \<and>
   splitSqlStatements (js ''SELECT 'it'' @ [0x5C] @ js '''s';'') =
     [js ''SELECT 'it'' @ [0x5C] @ js '''s';'']"
proof
  show "0 < i \<and> i < length s \<and> inString (run s i) \<and> stringChar (run s i) = [s ! i] \<and>
    s ! (i - 1) = 0x5C \<longrightarrow>
      inString (run s (Suc i)) \<and> stringChar (run s (Suc i)) = stringChar (run s i) \<and>
      \<not> boundaryAt s i"
    using run_exclusive[of s i]
    by (auto simp add: boundaryAt_def body_def charAt_def prevCharAt_def iteration_escaped_quote)
  show "splitSqlStatements (js ''SELECT 'it'' @ [0x5C] @ js '''s';'') =
     [js ''SELECT 'it'' @ [0x5C] @ js '''s';'']"
    by code_simp
qed

theorem escaped_quote_keeps_string_witness:
  "inString (run ([0x27, 0x5C, 0x27, 0x3B]) 3) \<and> \<not> boundaryAt [0x27, 0x5C, 0x27, 0x3B] 2"
proof -
  have h: "0 < (2::nat) \<and> 2 < length [0x27, 0x5C, 0x27, 0x3B :: cu] \<and>
     inString (run [0x27, 0x5C, 0x27, 0x3B] 2) \<and>
     stringChar (run [0x27, 0x5C, 0x27, 0x3B] 2) = [[0x27, 0x5C, 0x27, 0x3B] ! 2] \<and>
     [0x27, 0x5C, 0x27, 0x3B :: cu] ! (2 - 1) = 0x5C"
    by code_simp
  have n: "Suc 2 = 3" by simp
  from escaped_quote_keeps_string[of 2 "[0x27, 0x5C, 0x27, 0x3B]"] h n show ?thesis
    by (simp del: run.simps)
qed

lemma iteration_comment_entry:
  "\<not> inComment st \<Longrightarrow> inComment (iteration c n p st) \<Longrightarrow> \<not> inString st"
  by (auto simp add: iteration_defs split: if_splits)

lemma iteration_string_entry:
  "\<not> inString st \<Longrightarrow> inString (iteration c n p st) \<Longrightarrow> \<not> inComment st"
  by (auto simp add: iteration_defs split: if_splits)

subsection \<open>String and comment modes exclude each other\<close>

text \<open>
  C9: at every character position of the scan at most one of \<open>inString\<close> and
  \<open>inComment\<close> holds; an iteration enters comment mode only from a state where
  \<open>inString\<close> is false, and enters string mode only from a state where \<open>inComment\<close>
  is false.
\<close>

theorem scan_modes_exclusive:
  "n \<le> length s \<longrightarrow>
     \<not> (inString (run s n) \<and> inComment (run s n)) \<and>
     (n < length s \<and> \<not> inComment (run s n) \<and> inComment (run s (Suc n)) \<longrightarrow>
        \<not> inString (run s n)) \<and>
     (n < length s \<and> \<not> inString (run s n) \<and> inString (run s (Suc n)) \<longrightarrow>
        \<not> inComment (run s n))"
proof (intro impI conjI)
  show "\<not> (inString (run s n) \<and> inComment (run s n))"
    by (rule run_exclusive)
next
  assume "n < length s \<and> \<not> inComment (run s n) \<and> inComment (run s (Suc n))"
  then show "\<not> inString (run s n)"
    unfolding run.simps body_def using iteration_comment_entry by blast
next
  assume "n < length s \<and> \<not> inString (run s n) \<and> inString (run s (Suc n))"
  then show "\<not> inComment (run s n)"
    unfolding run.simps body_def using iteration_string_entry by blast
qed

theorem scan_modes_exclusive_witness:
  "\<not> (inString (run (js ''--a'' @ [0x0A, 0x27]) 5) \<and> inComment (run (js ''--a'' @ [0x0A, 0x27]) 5)) \<and>
   \<not> inString (run (js ''--a'') 0) \<and> \<not> inComment (run [0x27, 0x61] 0)"
proof -
  have a: "(5::nat) \<le> length (js ''--a'' @ [0x0A, 0x27 :: cu])" by code_simp
  have b: "0 \<le> length (js ''--a'') \<and> 0 < length (js ''--a'') \<and>
           \<not> inComment (run (js ''--a'') 0) \<and> inComment (run (js ''--a'') (Suc 0))"
    by code_simp
  have c: "0 \<le> length [0x27, 0x61 :: cu] \<and> 0 < length [0x27, 0x61 :: cu] \<and>
           \<not> inString (run [0x27, 0x61] 0) \<and> inString (run [0x27, 0x61] (Suc 0))"
    by code_simp
  from scan_modes_exclusive[of 5 "js ''--a'' @ [0x0A, 0x27]"] a
  have 1: "\<not> (inString (run (js ''--a'' @ [0x0A, 0x27]) 5) \<and> inComment (run (js ''--a'' @ [0x0A, 0x27]) 5))"
    by blast
  from scan_modes_exclusive[of 0 "js ''--a''"] b have 2: "\<not> inString (run (js ''--a'') 0)"
    by blast
  from scan_modes_exclusive[of 0 "[0x27, 0x61]"] c have 3: "\<not> inComment (run [0x27, 0x61] 0)"
    by blast
  from 1 2 3 show ?thesis by blast
qed

subsection \<open>The scan as a recursion over the input\<close>

lemma scanFrom_append:
  "scanFrom st p (xs @ ys) f =
     scanFrom (scanFrom st p xs (case ys of [] \<Rightarrow> f | d # _ \<Rightarrow> [d]))
       (if xs = [] then p else [last xs]) ys f"
proof (induction xs arbitrary: st p)
  case Nil
  show ?case by simp
next
  case (Cons x xs)
  show ?case
  proof (cases xs)
    case Nil
    then show ?thesis by (cases ys) simp_all
  next
    case (Cons z zs)
    with Cons.IH show ?thesis by simp
  qed
qed

lemma scanFrom_snoc:
  "scanFrom st p (xs @ [c]) f =
     iteration [c] f (if xs = [] then p else [last xs]) (scanFrom st p xs [c])"
  by (simp add: scanFrom_append)

lemma run_scanFrom:
  "n \<le> length s \<Longrightarrow>
   run s n = scanFrom init [] (take n s) (if n < length s then [s ! n] else [])"
proof (induction n)
  case 0
  show ?case by simp
next
  case (Suc n)
  then have n: "n < length s" by simp
  have pv: "prevCharAt s n = (if take n s = [] then [] else [last (take n s)])"
    using n by (cases n) (auto simp add: prevCharAt_def last_conv_nth)
  from Suc n show ?case
    by (simp add: take_Suc_conv_app_nth scanFrom_snoc body_def charAt_def nextCharAt_def pv
        del: scanFrom.simps)
qed

lemma split_scanFrom: "splitSqlStatements s = finish (scanFrom init [] s [])"
  using run_scanFrom[of "length s" s] by (simp add: splitSqlStatements_def)

subsection \<open>Whitespace and trim\<close>

lemma isWs_not_special:
  "isWs c \<Longrightarrow> c \<noteq> 0x2D \<and> c \<noteq> 0x27 \<and> c \<noteq> 0x22 \<and> c \<noteq> 0x3B"
  by (auto simp add: isWs_def)

lemma dropWhile_all_iff: "(\<forall>x\<in>set (dropWhile P xs). P x) \<longleftrightarrow> (\<forall>x\<in>set xs. P x)"
proof (cases "dropWhile P xs")
  case Nil
  then show ?thesis by (auto dest: set_dropWhileD)
next
  case (Cons y ys)
  then have "\<not> P y" using hd_dropWhile[of P xs] by simp
  moreover have "y \<in> set xs" using Cons set_dropWhileD[of y P xs] by simp
  ultimately show ?thesis using Cons by auto
qed

lemma trim_eq_Nil: "trim xs = [] \<longleftrightarrow> (\<forall>c\<in>set xs. isWs c)"
  by (simp add: trim_def dropWhile_all_iff)

lemma trim_ws_prefix: "\<forall>c\<in>set l. isWs c \<Longrightarrow> trim (l @ xs) = trim xs"
  by (simp add: trim_def)

lemma dropWhile_split_trim:
  "dropWhile isWs xs = trim xs @ rev (takeWhile isWs (rev (dropWhile isWs xs)))"
proof -
  let ?ys = "dropWhile isWs xs"
  have "rev (rev ?ys) = rev (takeWhile isWs (rev ?ys) @ dropWhile isWs (rev ?ys))"
    by (simp only: takeWhile_dropWhile_id)
  then have "?ys = rev (dropWhile isWs (rev ?ys)) @ rev (takeWhile isWs (rev ?ys))"
    by (simp only: rev_rev_ident rev_append)
  then show ?thesis by (simp only: trim_def)
qed

lemma trim_decompose:
  "\<exists>l r. xs = l @ trim xs @ r \<and> (\<forall>c\<in>set l. isWs c) \<and> (\<forall>c\<in>set r. isWs c)"
proof (intro exI conjI)
  show "xs = takeWhile isWs xs @ trim xs @ rev (takeWhile isWs (rev (dropWhile isWs xs)))"
    using dropWhile_split_trim[of xs] takeWhile_dropWhile_id[of isWs xs] by simp
  show "\<forall>c\<in>set (takeWhile isWs xs). isWs c" by (auto dest: set_takeWhileD)
  show "\<forall>c\<in>set (rev (takeWhile isWs (rev (dropWhile isWs xs)))). isWs c"
    by (auto dest: set_takeWhileD)
qed

lemma trim_id: "xs \<noteq> [] \<Longrightarrow> \<not> isWs (hd xs) \<Longrightarrow> \<not> isWs (last xs) \<Longrightarrow> trim xs = xs"
proof -
  assume a: "xs \<noteq> []" "\<not> isWs (hd xs)" "\<not> isWs (last xs)"
  then have 1: "dropWhile isWs xs = xs" by (cases xs) simp_all
  from a have "rev xs \<noteq> []" "\<not> isWs (hd (rev xs))" by (simp_all add: hd_rev)
  then have 2: "dropWhile isWs (rev xs) = rev xs" by (cases "rev xs") simp_all
  from 1 2 show ?thesis by (simp add: trim_def)
qed

lemma trim_hd_last: "trim xs \<noteq> [] \<Longrightarrow> \<not> isWs (hd (trim xs)) \<and> \<not> isWs (last (trim xs))"
proof -
  assume n: "trim xs \<noteq> []"
  let ?ys = "dropWhile isWs xs"
  let ?zs = "dropWhile isWs (rev ?ys)"
  have t: "trim xs = rev ?zs" by (simp add: trim_def)
  with n have zs: "?zs \<noteq> []" by simp
  then have l: "\<not> isWs (hd ?zs)" using hd_dropWhile[of isWs "rev ?ys"] by simp
  have "?ys = [] \<Longrightarrow> ?zs = []" by (auto dest: set_dropWhileD)
  with zs have ys: "?ys \<noteq> []" by blast
  then have h: "\<not> isWs (hd ?ys)" using hd_dropWhile[of isWs xs] by simp
  have "?ys = trim xs @ rev (takeWhile isWs (rev ?ys))" by (rule dropWhile_split_trim)
  then have "hd ?ys = hd (trim xs)" using n by (metis hd_append2)
  with h l t zs show ?thesis by (simp add: last_rev)
qed

lemma trim_idem: "trim (trim xs) = trim xs"
proof (cases "trim xs = []")
  case True
  have "trim [] = []" by (simp add: trim_def)
  with True show ?thesis by simp
next
  case False
  then show ?thesis using trim_hd_last[OF False] by (simp add: trim_id)
qed

lemma trim_ends_nonws:
  "xs \<noteq> [] \<Longrightarrow> \<not> isWs (last xs) \<Longrightarrow> trim xs = dropWhile isWs xs"
proof -
  assume a: "xs \<noteq> []" "\<not> isWs (last xs)"
  then have ne: "dropWhile isWs xs \<noteq> []"
    by (metis dropWhile_eq_Nil_conv last_in_set)
  then have "last (dropWhile isWs xs) = last xs"
    by (metis takeWhile_dropWhile_id last_appendR)
  with a ne have "\<not> isWs (hd (rev (dropWhile isWs xs)))" by (simp add: hd_rev)
  with ne have "dropWhile isWs (rev (dropWhile isWs xs)) = rev (dropWhile isWs xs)"
    by (cases "rev (dropWhile isWs xs)") simp_all
  then show ?thesis by (simp add: trim_def)
qed

subsection \<open>What one iteration does to the buffer and the statements\<close>

lemma iteration_cases:
  "(statements (iteration [c] n p st) = statements st \<and>
    currentStatement (iteration [c] n p st) = currentStatement st @ [c]) \<or>
   (c = 0x3B \<and> \<not> inString st \<and> \<not> inComment st \<and>
    iteration [c] n p st =
      st\<lparr>statements := statements st @ [trim (currentStatement st @ [c])],
         currentStatement := []\<rparr>)"
  by (simp add: iteration_defs)

lemma iteration_length_statements:
  "length (statements st) \<le> length (statements (iteration [c] n p st))"
  using iteration_cases[of c n p st] by auto

lemma scanFrom_length_statements:
  "length (statements st) \<le> length (statements (scanFrom st p xs f))"
proof (induction xs arbitrary: st p)
  case Nil
  show ?case by simp
next
  case (Cons x xs)
  show ?case
    using iteration_length_statements[of st x "case xs of [] \<Rightarrow> f | d # _ \<Rightarrow> [d]" p]
      Cons.IH[of "iteration [x] (case xs of [] \<Rightarrow> f | d # _ \<Rightarrow> [d]) p st" "[x]"]
    by simp
qed

lemma scanFrom_no_push_buffer:
  "length (statements (scanFrom st p xs f)) = length (statements st) \<Longrightarrow>
   statements (scanFrom st p xs f) = statements st \<and>
   currentStatement (scanFrom st p xs f) = currentStatement st @ xs"
proof (induction xs arbitrary: st p)
  case Nil
  show ?case by simp
next
  case (Cons x xs)
  let ?n = "case xs of [] \<Rightarrow> f | d # _ \<Rightarrow> [d]"
  let ?st1 = "iteration [x] ?n p st"
  have le1: "length (statements st) \<le> length (statements ?st1)"
    by (rule iteration_length_statements)
  have le2: "length (statements ?st1) \<le> length (statements (scanFrom ?st1 [x] xs f))"
    by (rule scanFrom_length_statements)
  from Cons.prems le1 le2 have e1: "length (statements ?st1) = length (statements st)"
    and e2: "length (statements (scanFrom ?st1 [x] xs f)) = length (statements ?st1)"
    by simp_all
  from e1 iteration_cases[of x ?n p st]
  have s1: "statements ?st1 = statements st \<and> currentStatement ?st1 = currentStatement st @ [x]"
    by auto
  from Cons.IH[OF e2] s1 show ?case by simp
qed

subsection \<open>The statements already pushed do not influence the scan\<close>

lemma iteration_statements_prefix:
  "iteration c n p (st\<lparr>statements := acc @ statements st\<rparr>) =
   (iteration c n p st)\<lparr>statements := acc @ statements (iteration c n p st)\<rparr>"
  by (simp add: iteration_defs)

lemma scanFrom_statements_prefix:
  "scanFrom (st\<lparr>statements := acc @ statements st\<rparr>) p xs f =
   (scanFrom st p xs f)\<lparr>statements := acc @ statements (scanFrom st p xs f)\<rparr>"
proof (induction xs arbitrary: st p)
  case Nil
  show ?case by simp
next
  case (Cons x xs)
  show ?case by (simp add: iteration_statements_prefix Cons.IH)
qed

lemma finish_statements_prefix:
  "finish (st\<lparr>statements := acc @ statements st\<rparr>) = acc @ finish st"
  by (simp add: finish_def)

subsection \<open>Where the previous and the next character matter\<close>

lemma iteration_prev_irrelevant:
  "\<not> inString st \<Longrightarrow> iteration c n p st = iteration c n p' st"
  by (simp add: iteration_defs)

lemma scanFrom_prev_irrelevant:
  "\<not> inString st \<Longrightarrow> scanFrom st p xs f = scanFrom st p' xs f"
  by (cases xs) (simp_all add: iteration_prev_irrelevant[of st _ _ p p'])

lemma iteration_next_irrelevant:
  "c \<noteq> [0x2D] \<Longrightarrow> iteration c n p st = iteration c n' p st"
  by (simp add: iteration_defs)

lemma iteration_next_irrelevant2:
  "n \<noteq> [0x2D] \<Longrightarrow> n' \<noteq> [0x2D] \<Longrightarrow> iteration c n p st = iteration c n' p st"
  by (simp add: iteration_defs)

lemma iteration_next_output:
  "statements (iteration c n p st) = statements (iteration c n' p st) \<and>
   currentStatement (iteration c n p st) = currentStatement (iteration c n' p st)"
  by (simp add: iteration_defs)

lemma scanFrom_next_irrelevant:
  "xs \<noteq> [] \<Longrightarrow> last xs \<noteq> 0x2D \<Longrightarrow> scanFrom st p xs f = scanFrom st p xs f'"
proof -
  assume a: "xs \<noteq> []" "last xs \<noteq> 0x2D"
  then obtain ys c where xs: "xs = ys @ [c]" and c: "c \<noteq> 0x2D"
    by (metis append_butlast_last_id)
  show ?thesis unfolding xs scanFrom_snoc
    using c by (simp add: iteration_next_irrelevant[of "[c]" f _ _ f'])
qed

lemma scanFrom_next_irrelevant2:
  "f \<noteq> [0x2D] \<Longrightarrow> f' \<noteq> [0x2D] \<Longrightarrow> scanFrom st p xs f = scanFrom st p xs f'"
proof (cases xs rule: rev_cases)
  case Nil
  then show ?thesis by simp
next
  case (snoc ys c)
  assume "f \<noteq> [0x2D]" "f' \<noteq> [0x2D]"
  then show ?thesis unfolding snoc scanFrom_snoc
    by (rule iteration_next_irrelevant2)
qed

lemma scanFrom_next_output:
  "statements (scanFrom st p xs f) = statements (scanFrom st p xs f') \<and>
   currentStatement (scanFrom st p xs f) = currentStatement (scanFrom st p xs f')"
proof (cases xs rule: rev_cases)
  case Nil
  then show ?thesis by simp
next
  case (snoc ys c)
  show ?thesis unfolding snoc scanFrom_snoc by (rule iteration_next_output)
qed

subsection \<open>Whitespace outside strings and comments\<close>

lemma iteration_ws:
  "\<not> inString st \<Longrightarrow> \<not> inComment st \<Longrightarrow> isWs c \<Longrightarrow>
   iteration [c] n p st = st\<lparr>currentStatement := currentStatement st @ [c]\<rparr>"
  using isWs_not_special[of c] by (simp add: iteration_defs)

lemma scanFrom_ws:
  "\<not> inString st \<Longrightarrow> \<not> inComment st \<Longrightarrow> \<forall>c\<in>set ws. isWs c \<Longrightarrow>
   scanFrom st p ws f = st\<lparr>currentStatement := currentStatement st @ ws\<rparr>"
proof (induction ws arbitrary: st p)
  case Nil
  show ?case by simp
next
  case (Cons x xs)
  then show ?case by (simp add: iteration_ws)
qed

subsection \<open>Leading whitespace in the buffer\<close>

lemma iteration_ws_buffer:
  "\<forall>c\<in>set l. isWs c \<Longrightarrow>
   iteration [c] n p (st\<lparr>currentStatement := l @ currentStatement st\<rparr>) =
   (if length (statements (iteration [c] n p st)) = length (statements st)
    then (iteration [c] n p st)\<lparr>currentStatement := l @ currentStatement (iteration [c] n p st)\<rparr>
    else iteration [c] n p st)"
  by (simp add: iteration_defs trim_ws_prefix)

lemma scanFrom_ws_buffer:
  "\<forall>c\<in>set l. isWs c \<Longrightarrow>
   scanFrom (st\<lparr>currentStatement := l @ currentStatement st\<rparr>) p xs f =
   (if length (statements (scanFrom st p xs f)) = length (statements st)
    then (scanFrom st p xs f)\<lparr>currentStatement := l @ currentStatement (scanFrom st p xs f)\<rparr>
    else scanFrom st p xs f)"
proof (induction xs arbitrary: st p)
  case Nil
  show ?case by simp
next
  case (Cons x xs)
  let ?n = "case xs of [] \<Rightarrow> f | d # _ \<Rightarrow> [d]"
  let ?st1 = "iteration [x] ?n p st"
  have le1: "length (statements st) \<le> length (statements ?st1)"
    by (rule iteration_length_statements)
  have le2: "length (statements ?st1) \<le> length (statements (scanFrom ?st1 [x] xs f))"
    by (rule scanFrom_length_statements)
  show ?case
  proof (cases "length (statements ?st1) = length (statements st)")
    case True
    with Cons.prems have
      "iteration [x] ?n p (st\<lparr>currentStatement := l @ currentStatement st\<rparr>) =
       ?st1\<lparr>currentStatement := l @ currentStatement ?st1\<rparr>"
      by (simp add: iteration_ws_buffer)
    with Cons.IH[OF Cons.prems, of ?st1 "[x]"] True show ?thesis by simp
  next
    case False
    with Cons.prems have
      "iteration [x] ?n p (st\<lparr>currentStatement := l @ currentStatement st\<rparr>) = ?st1"
      by (simp add: iteration_ws_buffer)
    moreover from False le1 le2
    have "length (statements (scanFrom ?st1 [x] xs f)) \<noteq> length (statements st)" by simp
    ultimately show ?thesis by simp
  qed
qed

lemma scanFrom_ws_buffer_statements:
  "\<forall>c\<in>set l. isWs c \<Longrightarrow>
   statements (scanFrom (st\<lparr>currentStatement := l @ currentStatement st\<rparr>) p xs f) =
   statements (scanFrom st p xs f)"
  by (simp add: scanFrom_ws_buffer)

subsection \<open>Outside a string no quote character is recorded\<close>

lemma iteration_stringChar:
  "(\<not> inString st \<longrightarrow> stringChar st = []) \<Longrightarrow>
   (\<not> inString (iteration c n p st) \<longrightarrow> stringChar (iteration c n p st) = [])"
  by (auto simp add: iteration_defs split: if_splits)

lemma scanFrom_stringChar:
  "(\<not> inString st \<longrightarrow> stringChar st = []) \<Longrightarrow>
   (\<not> inString (scanFrom st p xs f) \<longrightarrow> stringChar (scanFrom st p xs f) = [])"
proof (induction xs arbitrary: st p)
  case Nil
  then show ?case by simp
next
  case (Cons x xs)
  show ?case unfolding scanFrom.simps
    by (rule Cons.IH) (rule iteration_stringChar[OF Cons.prems])
qed

subsection \<open>Segments: the pieces of the input that end at a statement boundary\<close>

lemma segment_last:
  assumes "segment b"
  shows "b \<noteq> [] \<and> last b = 0x3B"
proof (cases b rule: rev_cases)
  case Nil
  with assms show ?thesis by (simp add: segment_def init_def)
next
  case (snoc ys c)
  let ?r = "scanFrom init [] ys [c]"
  let ?p = "if ys = [] then [] else [last ys]"
  from assms have "currentStatement (iteration [c] [] ?p ?r) = []"
    by (simp add: segment_def snoc scanFrom_snoc init_def)
  with iteration_cases[of c "[]" ?p ?r] have "c = 0x3B" by auto
  with snoc show ?thesis by simp
qed

lemma segment_trim:
  assumes "segment b"
  shows "trim b = dropWhile isWs b \<and> trim b \<noteq> [] \<and> last (trim b) = 0x3B"
proof -
  from segment_last[OF assms] have b: "b \<noteq> []" "last b = 0x3B" by simp_all
  then obtain ys where ys: "b = ys @ [0x3B]" by (metis append_butlast_last_id)
  from b have "trim b = dropWhile isWs b"
    by (simp add: trim_ends_nonws not_ws_semicolon)
  moreover from trim_snoc_nonws[OF not_ws_semicolon, of ys] ys
  have "trim b \<noteq> [] \<and> last (trim b) = 0x3B" by simp
  ultimately show ?thesis by simp
qed

lemma segment_nonempty: "segment b \<Longrightarrow> b \<noteq> []"
  using segment_last by blast

lemma segment_last_semicolon: "segment b \<Longrightarrow> last b = 0x3B"
  using segment_last by blast

lemma segment_trim_eq: "segment b \<Longrightarrow> trim b = dropWhile isWs b"
  using segment_trim by blast

lemma segment_trim_nonempty: "segment b \<Longrightarrow> trim b \<noteq> []"
  using segment_trim by blast

lemma segment_trim_last: "segment b \<Longrightarrow> last (trim b) = 0x3B"
  using segment_trim by blast

lemma split_segment:
  assumes "segment b"
  shows "splitSqlStatements (b @ rest) = trim b # splitSqlStatements rest"
proof -
  let ?n = "case rest of [] \<Rightarrow> [] | d # _ \<Rightarrow> [d]"
  from segment_last[OF assms] have b: "b \<noteq> []" "last b \<noteq> 0x2D" by simp_all
  have "scanFrom init [] b ?n = scanFrom init [] b []"
    by (rule scanFrom_next_irrelevant[OF b])
  with assms have 1: "scanFrom init [] b ?n = init\<lparr>statements := [trim b]\<rparr>"
    by (simp add: segment_def)
  have 2: "scanFrom (init\<lparr>statements := [trim b]\<rparr>) [last b] rest [] =
           scanFrom (init\<lparr>statements := [trim b]\<rparr>) [] rest []"
    by (rule scanFrom_prev_irrelevant) (simp add: init_def)
  have 3: "init\<lparr>statements := [trim b]\<rparr> = init\<lparr>statements := [trim b] @ statements init\<rparr>"
    by (simp add: init_def)
  have "scanFrom init [] (b @ rest) [] = scanFrom (init\<lparr>statements := [trim b]\<rparr>) [] rest []"
    using b 1 2 by (simp add: scanFrom_append)
  also have "\<dots> = (scanFrom init [] rest [])
                      \<lparr>statements := [trim b] @ statements (scanFrom init [] rest [])\<rparr>"
    unfolding 3 by (rule scanFrom_statements_prefix)
  finally show ?thesis
    by (simp only: split_scanFrom finish_statements_prefix) simp
qed

lemma split_openTail:
  assumes "openTail t"
  shows "splitSqlStatements t = lastStatement t"
proof -
  from assms have "length (statements (scanFrom init [] t [])) = length (statements init)"
    by (simp add: openTail_def init_def)
  from scanFrom_no_push_buffer[OF this]
  have "statements (scanFrom init [] t []) = [] \<and> currentStatement (scanFrom init [] t []) = t"
    by (simp add: init_def)
  then show ?thesis by (simp add: split_scanFrom finish_def lastStatement_def)
qed

lemma split_segments:
  "\<forall>b\<in>set bs. segment b \<Longrightarrow> openTail t \<Longrightarrow>
   splitSqlStatements (concat bs @ t) = map trim bs @ lastStatement t"
proof (induction bs)
  case Nil
  then show ?case by (simp add: split_openTail)
next
  case (Cons b bs)
  then show ?case by (simp add: split_segment)
qed

lemma segmentation:
  "\<exists>bs t. s = concat bs @ t \<and> (\<forall>b\<in>set bs. segment b) \<and> openTail t"
proof (induction s rule: rev_induct)
  case Nil
  have "[] = concat [] @ ([]::jsstring) \<and> (\<forall>b\<in>set []. segment b) \<and> openTail []"
    by (simp add: openTail_def init_def)
  then show ?case by blast
next
  case (snoc c s)
  then obtain bs t where s: "s = concat bs @ t" and bs: "\<forall>b\<in>set bs. segment b"
    and t: "openTail t" by blast
  let ?r = "scanFrom init [] t [c]"
  let ?p = "if t = [] then [] else [last t]"
  have st: "statements ?r = []"
    using t scanFrom_next_output[of init "[]" t "[c]" "[]"] by (simp add: openTail_def)
  then have "length (statements ?r) = length (statements init)" by (simp add: init_def)
  from scanFrom_no_push_buffer[OF this] have cur: "currentStatement ?r = t"
    by (simp add: init_def)
  have step: "scanFrom init [] (t @ [c]) [] = iteration [c] [] ?p ?r"
    by (rule scanFrom_snoc)
  from iteration_cases[of c "[]" ?p ?r]
  show ?case
  proof
    assume "statements (iteration [c] [] ?p ?r) = statements ?r \<and>
            currentStatement (iteration [c] [] ?p ?r) = currentStatement ?r @ [c]"
    with step st have "openTail (t @ [c])" by (simp add: openTail_def)
    with s bs have "s @ [c] = concat bs @ (t @ [c]) \<and> (\<forall>b\<in>set bs. segment b) \<and>
                    openTail (t @ [c])" by simp
    then show ?thesis by blast
  next
    assume a: "c = 0x3B \<and> \<not> inString ?r \<and> \<not> inComment ?r \<and>
       iteration [c] [] ?p ?r =
         ?r\<lparr>statements := statements ?r @ [trim (currentStatement ?r @ [c])],
            currentStatement := []\<rparr>"
    then have ns: "\<not> inString ?r" and nc: "\<not> inComment ?r"
      and eq: "iteration [c] [] ?p ?r =
         ?r\<lparr>statements := statements ?r @ [trim (currentStatement ?r @ [c])],
            currentStatement := []\<rparr>" by blast+
    have "\<not> inString ?r \<longrightarrow> stringChar ?r = []"
      by (rule scanFrom_stringChar) (simp add: init_def)
    with ns have sc: "stringChar ?r = []" by blast
    from ns nc st cur sc
    have "?r\<lparr>statements := statements ?r @ [trim (currentStatement ?r @ [c])],
             currentStatement := []\<rparr> = init\<lparr>statements := [trim (t @ [c])]\<rparr>"
      by (cases ?r) (simp add: init_def)
    with eq step have "segment (t @ [c])" by (simp add: segment_def)
    with s bs have "s @ [c] = concat (bs @ [t @ [c]]) @ [] \<and>
                    (\<forall>b\<in>set (bs @ [t @ [c]]). segment b) \<and> openTail []"
      by (simp add: openTail_def init_def)
    then show ?thesis by blast
  qed
qed

lemma segment_of_trim:
  assumes "segment b"
  shows "segment (trim b)"
proof -
  let ?l = "takeWhile isWs b"
  let ?t = "dropWhile isWs b"
  have st: "trim b = ?t \<and> trim b \<noteq> [] \<and> last (trim b) = 0x3B"
    by (rule segment_trim[OF assms])
  then have tb: "trim b = ?t" by blast
  from st have ne: "?t \<noteq> []" by metis
  from st have la: "last ?t = 0x3B" by metis
  have l: "\<forall>c\<in>set ?l. isWs c" by (auto dest: set_takeWhileD)
  have tt: "trim ?t = ?t" using trim_idem[of b] tb by simp
  let ?n = "case ?t of [] \<Rightarrow> [] | d # _ \<Rightarrow> [d]"
  let ?p = "if ?l = [] then [] else [last ?l]"
  let ?r = "scanFrom init [] ?t []"
  have "scanFrom init [] b [] = scanFrom init [] (?l @ ?t) []" by simp
  also have "\<dots> = scanFrom (scanFrom init [] ?l ?n) ?p ?t []"
    by (rule scanFrom_append)
  also have "scanFrom init [] ?l ?n = init\<lparr>currentStatement := currentStatement init @ ?l\<rparr>"
    by (rule scanFrom_ws) (simp_all add: init_def l)
  also have "init\<lparr>currentStatement := currentStatement init @ ?l\<rparr> =
             init\<lparr>currentStatement := ?l @ currentStatement init\<rparr>"
    by (simp add: init_def)
  also have "scanFrom (init\<lparr>currentStatement := ?l @ currentStatement init\<rparr>) ?p ?t [] =
             scanFrom (init\<lparr>currentStatement := ?l @ currentStatement init\<rparr>) [] ?t []"
    by (rule scanFrom_prev_irrelevant) (simp add: init_def)
  also have "\<dots> =
    (if length (statements ?r) = length (statements init)
     then ?r\<lparr>currentStatement := ?l @ currentStatement ?r\<rparr> else ?r)"
    by (rule scanFrom_ws_buffer[OF l])
  finally have e: "scanFrom init [] b [] =
    (if length (statements ?r) = length (statements init)
     then ?r\<lparr>currentStatement := ?l @ currentStatement ?r\<rparr> else ?r)" .
  from assms have sb: "scanFrom init [] b [] = init\<lparr>statements := [trim b]\<rparr>"
    by (simp add: segment_def)
  have "length (statements ?r) \<noteq> length (statements init)"
  proof
    assume a: "length (statements ?r) = length (statements init)"
    with e sb have "init\<lparr>statements := [trim b]\<rparr> =
                    ?r\<lparr>currentStatement := ?l @ currentStatement ?r\<rparr>" by simp
    then have "statements (init\<lparr>statements := [trim b]\<rparr>) =
               statements (?r\<lparr>currentStatement := ?l @ currentStatement ?r\<rparr>)" by simp
    with a show False by (simp add: init_def)
  qed
  with e sb have "?r = init\<lparr>statements := [trim b]\<rparr>" by simp
  with tb tt show ?thesis by (simp add: segment_def)
qed

lemma openTail_of_trim:
  assumes "openTail t"
  shows "openTail (trim t)"
proof -
  from trim_decompose[of t] obtain l r where t: "t = l @ trim t @ r"
    and l: "\<forall>c\<in>set l. isWs c" and r: "\<forall>c\<in>set r. isWs c" by blast
  let ?m = "trim t"
  let ?n1 = "case ?m @ r of [] \<Rightarrow> [] | d # _ \<Rightarrow> [d]"
  let ?p1 = "if l = [] then [] else [last l]"
  let ?n2 = "case r of [] \<Rightarrow> [] | d # _ \<Rightarrow> [d]"
  let ?p2 = "if ?m = [] then ?p1 else [last ?m]"
  let ?i = "init\<lparr>currentStatement := l @ currentStatement init\<rparr>"
  have "scanFrom init [] l ?n1 = init\<lparr>currentStatement := currentStatement init @ l\<rparr>"
    by (rule scanFrom_ws) (simp_all add: init_def l)
  then have 1: "scanFrom init [] l ?n1 = ?i" by (simp add: init_def)
  have "scanFrom init [] (l @ (?m @ r)) [] = scanFrom (scanFrom init [] l ?n1) ?p1 (?m @ r) []"
    by (rule scanFrom_append)
  also have "\<dots> = scanFrom ?i ?p1 (?m @ r) []" by (simp only: 1)
  also have "\<dots> = scanFrom (scanFrom ?i ?p1 ?m ?n2) ?p2 r []"
    by (rule scanFrom_append)
  finally have "scanFrom init [] t [] = scanFrom (scanFrom ?i ?p1 ?m ?n2) ?p2 r []"
    using t by simp
  with assms have "statements (scanFrom (scanFrom ?i ?p1 ?m ?n2) ?p2 r []) = []"
    by (simp add: openTail_def)
  with scanFrom_length_statements[of "scanFrom ?i ?p1 ?m ?n2" ?p2 r "[]"]
  have "statements (scanFrom ?i ?p1 ?m ?n2) = []" by simp
  then have "statements (scanFrom ?i ?p1 ?m []) = []"
    using scanFrom_next_output[of ?i ?p1 ?m ?n2 "[]"] by simp
  moreover have "scanFrom ?i ?p1 ?m [] = scanFrom ?i [] ?m []"
    by (rule scanFrom_prev_irrelevant) (simp add: init_def)
  ultimately have "statements (scanFrom ?i [] ?m []) = []" by simp
  then show ?thesis
    using scanFrom_ws_buffer_statements[OF l, of init "[]" ?m "[]"] by (simp add: openTail_def)
qed

lemma lastStatement_trim: "lastStatement (trim t) = lastStatement t"
  by (simp add: lastStatement_def trim_idem)

lemma concat_lastStatement: "concat (lastStatement t) = trim t"
  by (simp add: lastStatement_def)

subsection \<open>Splitting again\<close>

text \<open>
  C8: concatenating the statements emitted for \<open>s\<close> (each carries its terminator) and
  splitting the result gives the same statements again.
\<close>

theorem resplit_idempotent: "splitSqlStatements (concat (splitSqlStatements s)) = splitSqlStatements s"
proof -
  from segmentation[of s] obtain bs t where s: "s = concat bs @ t"
    and bs: "\<forall>b\<in>set bs. segment b" and t: "openTail t" by blast
  have sp: "splitSqlStatements s = map trim bs @ lastStatement t"
    unfolding s by (rule split_segments[OF bs t])
  have bs': "\<forall>b\<in>set (map trim bs). segment b" using bs by (simp add: segment_of_trim)
  have t': "openTail (trim t)" by (rule openTail_of_trim[OF t])
  have "concat (splitSqlStatements s) = concat (map trim bs) @ trim t"
    by (simp add: sp concat_lastStatement)
  then have "splitSqlStatements (concat (splitSqlStatements s)) =
             map trim (map trim bs) @ lastStatement (trim t)"
    by (simp only: split_segments[OF bs' t'])
  also have "\<dots> = map trim bs @ lastStatement t"
    by (simp add: trim_idem lastStatement_trim)
  finally show ?thesis by (simp only: sp)
qed

lemma reconstructs_lastStatement: "reconstructs (lastStatement t) t"
proof (cases "trim t = []")
  case True
  then show ?thesis by (simp add: lastStatement_def trim_eq_Nil list_all_iff)
next
  case False
  let ?w = "rev (takeWhile isWs (rev (dropWhile isWs t)))"
  have d: "dropWhile isWs t = trim t @ ?w" by (rule dropWhile_split_trim)
  have w: "list_all isWs ?w" by (auto simp add: list_all_iff dest: set_takeWhileD)
  have "take (length (trim t)) (trim t @ ?w) = trim t \<and>
        drop (length (trim t)) (trim t @ ?w) = ?w" by simp
  with False w show ?thesis
    by (simp only: lastStatement_def reconstructs.simps Let_def d[symmetric] if_True
        not_False_eq_True)
qed

lemma reconstructs_segments:
  "\<forall>b\<in>set bs. segment b \<Longrightarrow>
   reconstructs (map trim bs @ lastStatement t) (concat bs @ t)"
proof (induction bs)
  case Nil
  show ?case by (simp add: reconstructs_lastStatement)
next
  case (Cons b bs)
  then have sb: "segment b" by simp
  have st: "trim b = dropWhile isWs b" by (rule segment_trim_eq[OF sb])
  have "last b \<in> set b" by (simp add: segment_nonempty[OF sb])
  moreover have "\<not> isWs (last b)"
    by (simp add: segment_last_semicolon[OF sb] not_ws_semicolon)
  ultimately have "dropWhile isWs (b @ (concat bs @ t)) = dropWhile isWs b @ (concat bs @ t)"
    by (rule dropWhile_append1)
  with st have d: "dropWhile isWs (concat (b # bs) @ t) = trim b @ (concat bs @ t)"
    by simp
  from Cons have "reconstructs (map trim bs @ lastStatement t) (concat bs @ t)" by simp
  then show ?case
    by (simp only: list.map append_Cons reconstructs.simps Let_def d) simp
qed

subsection \<open>Reconstructing the input\<close>

text \<open>
  C2 as stated fails: the emitted statements already end with their terminator, so
  appending \<open>;\<close> to each of them does not give back the input \<open>A;\<close>.
\<close>

theorem reappended_terminator_counterexample:
  "\<not> reconstructs (map (\<lambda>x. x @ [0x3B]) (splitSqlStatements (js ''A;''))) (js ''A;'')"
  by code_simp

text \<open>
  C2, amended: the concatenation of the emitted statements, taken as they are emitted,
  reconstructs the input up to the whitespace trimmed around each statement.
\<close>

theorem statements_reconstruct_input: "reconstructs (splitSqlStatements s) s"
proof -
  from segmentation[of s] obtain bs t where s: "s = concat bs @ t"
    and bs: "\<forall>b\<in>set bs. segment b" and t: "openTail t" by blast
  have "splitSqlStatements s = map trim bs @ lastStatement t"
    unfolding s by (rule split_segments[OF bs t])
  with reconstructs_segments[OF bs, of t] s show ?thesis by simp
qed

lemma sublist_trim: "sublist (trim b) b"
  using trim_decompose[of b] unfolding sublist_def by blast

lemma sublist_concat_member: "b \<in> set bs \<Longrightarrow> sublist b (concat bs @ t)"
proof -
  assume "b \<in> set bs"
  then obtain as cs where "bs = as @ b # cs" by (auto dest: split_list)
  then have "concat bs @ t = concat as @ b @ (concat cs @ t)" by simp
  then show ?thesis unfolding sublist_def by blast
qed

lemma sublist_trim_of: "sublist b s \<Longrightarrow> sublist (trim b) s"
proof -
  assume "sublist b s"
  then obtain ps ss where s: "s = ps @ b @ ss" unfolding sublist_def by blast
  from trim_decompose[of b] obtain l r where "b = l @ trim b @ r" by blast
  with s have "s = (ps @ l) @ trim b @ (r @ ss)" by (metis append.assoc)
  then show ?thesis unfolding sublist_def by blast
qed

subsection \<open>Shape of the emitted statements\<close>

text \<open>
  C5: every emitted statement is non-empty, is trimmed, is a contiguous substring of
  the input and is the trimmed form of a contiguous substring of the input; every
  emitted statement but possibly the last ends with \<open>;\<close>.
\<close>

theorem statements_shape:
  "(\<forall>x\<in>set (splitSqlStatements s).
      x \<noteq> [] \<and> trim x = x \<and> sublist x s \<and> (\<exists>b. sublist b s \<and> x = trim b)) \<and>
   (\<forall>i. Suc i < length (splitSqlStatements s) \<longrightarrow> last (splitSqlStatements s ! i) = 0x3B)"
proof -
  from segmentation[of s] obtain bs t where s: "s = concat bs @ t"
    and bs: "\<forall>b\<in>set bs. segment b" and t: "openTail t" by blast
  have sp: "splitSqlStatements s = map trim bs @ lastStatement t"
    unfolding s by (rule split_segments[OF bs t])
  have el: "x \<noteq> [] \<and> trim x = x \<and> sublist x s \<and> (\<exists>b. sublist b s \<and> x = trim b)"
    if x: "x \<in> set (splitSqlStatements s)" for x
  proof -
    from x sp have "(\<exists>b\<in>set bs. x = trim b) \<or> (trim t \<noteq> [] \<and> x = trim t)"
      by (auto simp add: lastStatement_def split: if_splits)
    then obtain b where xb: "x = trim b" and ne: "x \<noteq> []" and sub: "sublist b s"
    proof
      assume "\<exists>b\<in>set bs. x = trim b"
      then obtain b where b: "b \<in> set bs" "x = trim b" by blast
      with bs have "segment b" by blast
      from segment_trim_nonempty[OF this] b(2) have "x \<noteq> []" by simp
      moreover have "sublist b s" unfolding s by (rule sublist_concat_member[OF b(1)])
      ultimately show ?thesis using b(2) that by blast
    next
      assume a: "trim t \<noteq> [] \<and> x = trim t"
      have "s = concat bs @ t @ []" using s by simp
      then have "sublist t s" unfolding sublist_def by blast
      with a show ?thesis using that by blast
    qed
    from xb have "trim x = x" by (simp add: trim_idem)
    moreover from sub xb have "sublist x s" by (simp add: sublist_trim_of)
    ultimately show ?thesis using ne sub xb by blast
  qed
  have la: "last (splitSqlStatements s ! i) = 0x3B" if i: "Suc i < length (splitSqlStatements s)" for i
  proof -
    have "length (lastStatement t) \<le> 1" by (simp add: lastStatement_def)
    with i sp have ib: "i < length bs" by simp
    then have "splitSqlStatements s ! i = trim (bs ! i)" by (simp add: sp nth_append)
    moreover from ib bs have "segment (bs ! i)" by simp
    ultimately show ?thesis using segment_trim_last by simp
  qed
  from el la show ?thesis by blast
qed

theorem statements_shape_witness:
  "js ''B'' \<noteq> [] \<and> sublist (js ''B'') (js '' A; B '') \<and>
   last (splitSqlStatements (js '' A; B '') ! 0) = 0x3B"
proof -
  let ?s = "js '' A; B ''"
  have m: "js ''B'' \<in> set (splitSqlStatements ?s)" by code_simp
  have l: "Suc 0 < length (splitSqlStatements ?s)" by code_simp
  from statements_shape[of ?s] m l show ?thesis by blast
qed

subsection \<open>Iterations that push nothing\<close>

lemma run_step_cases:
  "i < length s \<Longrightarrow>
   (statements (run s (Suc i)) = statements (run s i) \<and>
    currentStatement (run s (Suc i)) = currentStatement (run s i) @ [s ! i]) \<or>
   (statements (run s (Suc i)) = statements (run s i) @ [trim (currentStatement (run s i) @ [s ! i])] \<and>
    currentStatement (run s (Suc i)) = [])"
  using iteration_cases[of "s ! i" "nextCharAt s i" "prevCharAt s i" "run s i"]
  by (auto simp add: body_def charAt_def)

lemma no_boundary_step:
  "i < length s \<Longrightarrow> \<not> boundaryAt s i \<Longrightarrow>
   statements (run s (Suc i)) = statements (run s i) \<and>
   currentStatement (run s (Suc i)) = currentStatement (run s i) @ [s ! i]"
  using run_step_cases[of i s] by (auto simp add: boundaryAt_def simp del: run.simps)

lemma boundary_step:
  "boundaryAt s i \<Longrightarrow> currentStatement (run s (Suc i)) = []"
  using run_step_cases[of i s] by (auto simp add: boundaryAt_def simp del: run.simps)

lemma run_no_boundary:
  "k \<le> m \<Longrightarrow> m \<le> length s \<Longrightarrow> \<forall>j. k \<le> j \<and> j < m \<longrightarrow> \<not> boundaryAt s j \<Longrightarrow>
   statements (run s m) = statements (run s k) \<and>
   currentStatement (run s m) = currentStatement (run s k) @ take (m - k) (drop k s)"
proof (induction m)
  case 0
  then show ?case by simp
next
  case (Suc m)
  show ?case
  proof (cases "k \<le> m")
    case False
    with Suc.prems have "k = Suc m" by simp
    then show ?thesis by simp
  next
    case True
    from Suc.prems have m: "m < length s" by simp
    from Suc.prems True have nb: "\<not> boundaryAt s m" by simp
    from Suc.prems have "\<forall>j. k \<le> j \<and> j < m \<longrightarrow> \<not> boundaryAt s j" by simp
    with Suc.IH True m have ih: "statements (run s m) = statements (run s k) \<and>
      currentStatement (run s m) = currentStatement (run s k) @ take (m - k) (drop k s)"
      by simp
    from True have d: "Suc m - k = Suc (m - k)" by simp
    from True m have t: "take (Suc (m - k)) (drop k s) = take (m - k) (drop k s) @ [s ! m]"
      by (simp add: take_Suc_conv_app_nth)
    from no_boundary_step[OF m nb] ih show ?thesis
      by (simp only: d t) simp
  qed
qed

subsection \<open>Empty input and trailing content\<close>

text \<open>
  C7: the empty input gives no statement, \<open>SELECT 1\<close> gives \<open>[SELECT 1]\<close>, and when
  the content after the last statement boundary (or the whole input when there is no
  boundary) is not only whitespace, it is emitted, trimmed, as the final statement.
\<close>

theorem trailing_content_emitted:
  "splitSqlStatements [] = [] \<and>
   splitSqlStatements (js ''SELECT 1'') = [js ''SELECT 1''] \<and>
   (k \<le> length s \<and> (k = 0 \<or> boundaryAt s (k - 1)) \<and>
    (\<forall>j. k \<le> j \<and> j < length s \<longrightarrow> \<not> boundaryAt s j) \<and> trim (drop k s) \<noteq> [] \<longrightarrow>
      splitSqlStatements s = statements (run s k) @ [trim (drop k s)])"
proof (intro conjI impI)
  show "splitSqlStatements [] = []" by code_simp
  show "splitSqlStatements (js ''SELECT 1'') = [js ''SELECT 1'']" by code_simp
next
  assume a: "k \<le> length s \<and> (k = 0 \<or> boundaryAt s (k - 1)) \<and>
    (\<forall>j. k \<le> j \<and> j < length s \<longrightarrow> \<not> boundaryAt s j) \<and> trim (drop k s) \<noteq> []"
  then have k: "k \<le> length s" and nb: "\<forall>j. k \<le> j \<and> j < length s \<longrightarrow> \<not> boundaryAt s j"
    and ne: "trim (drop k s) \<noteq> []" by blast+
  have cur: "currentStatement (run s k) = []"
  proof (cases k)
    case 0
    then show ?thesis by (simp add: init_def)
  next
    case (Suc k')
    with a have "boundaryAt s k'" by simp
    from boundary_step[OF this] Suc show ?thesis by simp
  qed
  from run_no_boundary[OF k order_refl nb] cur
  have "statements (run s (length s)) = statements (run s k) \<and>
        currentStatement (run s (length s)) = drop k s" by simp
  with ne show "splitSqlStatements s = statements (run s k) @ [trim (drop k s)]"
    by (simp add: splitSqlStatements_def finish_def)
qed

theorem trailing_content_emitted_witness: "splitSqlStatements (js ''A; B'') = [js ''A;'', js ''B'']"
proof -
  let ?s = "js ''A; B''"
  have len: "length ?s = 4" by code_simp
  have h1: "2 \<le> length ?s \<and> ((2::nat) = 0 \<or> boundaryAt ?s (2 - 1))" by code_simp
  have nb2: "\<not> boundaryAt ?s 2" by code_simp
  have nb3: "\<not> boundaryAt ?s 3" by code_simp
  have h2: "\<forall>j. 2 \<le> j \<and> j < length ?s \<longrightarrow> \<not> boundaryAt ?s j"
  proof (intro allI impI)
    fix j assume "2 \<le> j \<and> j < length ?s"
    with len have "j = 2 \<or> j = 3" by arith
    with nb2 nb3 show "\<not> boundaryAt ?s j" by blast
  qed
  have h3: "trim (drop 2 ?s) \<noteq> []" by code_simp
  have e1: "statements (run ?s 2) = [js ''A;'']" by code_simp
  have e2: "trim (drop 2 ?s) = js ''B''" by code_simp
  from trailing_content_emitted[of 2 ?s] h1 h2 h3
  have "splitSqlStatements ?s = statements (run ?s 2) @ [trim (drop 2 ?s)]" by blast
  with e1 e2 show ?thesis by simp
qed

subsection \<open>A string that is never closed\<close>

text \<open>
  C10: when a quote met outside strings and comments opens a string that stays open
  until the end of the input, no later character is a statement boundary, whatever it
  is (a \<open>;\<close>, a newline), and the buffer of that moment followed by the rest of the
  input is emitted, trimmed, as the final statement; it is never empty.
\<close>

theorem unclosed_string_swallows_rest:
  "i < length s \<and> \<not> inString (run s i) \<and> \<not> inComment (run s i) \<and>
   (s ! i = 0x27 \<or> s ! i = 0x22) \<and> (\<forall>j. i < j \<and> j \<le> length s \<longrightarrow> inString (run s j)) \<longrightarrow>
     (\<forall>j. i \<le> j \<and> j < length s \<longrightarrow> \<not> boundaryAt s j) \<and>
     trim (currentStatement (run s i) @ drop i s) \<noteq> [] \<and>
     splitSqlStatements s = statements (run s i) @ [trim (currentStatement (run s i) @ drop i s)]"
proof (intro impI)
  assume a: "i < length s \<and> \<not> inString (run s i) \<and> \<not> inComment (run s i) \<and>
   (s ! i = 0x27 \<or> s ! i = 0x22) \<and> (\<forall>j. i < j \<and> j \<le> length s \<longrightarrow> inString (run s j))"
  then have i: "i < length s" and ns: "\<not> inString (run s i)" and nc: "\<not> inComment (run s i)"
    and q: "s ! i = 0x27 \<or> s ! i = 0x22"
    and unclosed: "\<forall>j. i < j \<and> j \<le> length s \<longrightarrow> inString (run s j)" by blast+
  have nb: "\<forall>j. i \<le> j \<and> j < length s \<longrightarrow> \<not> boundaryAt s j"
  proof (intro allI impI)
    fix j assume j: "i \<le> j \<and> j < length s"
    show "\<not> boundaryAt s j"
    proof (cases "j = i")
      case True
      from iteration_string_start[OF ns nc q]
      have "statements (run s (Suc i)) = statements (run s i)"
        by (simp add: body_def charAt_def)
      with True show ?thesis by (simp add: boundaryAt_def del: run.simps)
    next
      case False
      with j unclosed have "inString (run s j)" by simp
      then show ?thesis
        by (simp add: boundaryAt_def body_def iteration_inString_statements)
    qed
  qed
  have il: "i \<le> length s" using i by simp
  from run_no_boundary[OF il order_refl nb]
  have fin: "statements (run s (length s)) = statements (run s i) \<and>
        currentStatement (run s (length s)) = currentStatement (run s i) @ drop i s" by simp
  have "drop i s = s ! i # drop (Suc i) s" using i by (simp add: Cons_nth_drop_Suc)
  then have "s ! i \<in> set (currentStatement (run s i) @ drop i s)" by simp
  with not_ws_quote[OF q] have ne: "trim (currentStatement (run s i) @ drop i s) \<noteq> []"
    unfolding trim_eq_Nil by blast
  from nb ne fin show "(\<forall>j. i \<le> j \<and> j < length s \<longrightarrow> \<not> boundaryAt s j) \<and>
     trim (currentStatement (run s i) @ drop i s) \<noteq> [] \<and>
     splitSqlStatements s = statements (run s i) @ [trim (currentStatement (run s i) @ drop i s)]"
    by (simp add: splitSqlStatements_def finish_def)
qed

theorem unclosed_string_swallows_rest_witness:
  "splitSqlStatements (js ''A; 'b;'' @ [0x0A] @ js ''c;'') =
     [js ''A;'', js '''b;'' @ [0x0A] @ js ''c;''] \<and>
   \<not> boundaryAt (js ''A; 'b;'' @ [0x0A] @ js ''c;'') 5 \<and>
   \<not> boundaryAt (js ''A; 'b;'' @ [0x0A] @ js ''c;'') 8"
proof -
  let ?s = "js ''A; 'b;'' @ [0x0A] @ js ''c;''"
  have len: "length ?s = 9" by code_simp
  have h1: "3 < length ?s \<and> \<not> inString (run ?s 3) \<and> \<not> inComment (run ?s 3) \<and>
            (?s ! 3 = 0x27 \<or> ?s ! 3 = 0x22)" by code_simp
  have o: "list_all (\<lambda>j. inString (run ?s j)) [4, 5, 6, 7, 8, 9]" by code_simp
  have h2: "\<forall>j. 3 < j \<and> j \<le> length ?s \<longrightarrow> inString (run ?s j)"
  proof (intro allI impI)
    fix j assume "3 < j \<and> j \<le> length ?s"
    with len have "j \<in> set [4, 5, 6, 7, 8, 9]" by (simp del: run.simps) arith
    with o show "inString (run ?s j)" unfolding list_all_iff by blast
  qed
  have e1: "statements (run ?s 3) = [js ''A;'']" by code_simp
  have e2: "trim (currentStatement (run ?s 3) @ drop 3 ?s) = js '''b;'' @ [0x0A] @ js ''c;''"
    by code_simp
  have b: "(5::nat) \<le> 5 \<and> 5 < length ?s" "(3::nat) \<le> 8 \<and> 8 < length ?s"
    using len by simp_all
  from unclosed_string_swallows_rest[of 3 ?s] h1 h2
  have r: "(\<forall>j. 3 \<le> j \<and> j < length ?s \<longrightarrow> \<not> boundaryAt ?s j) \<and>
     splitSqlStatements ?s = statements (run ?s 3) @ [trim (currentStatement (run ?s 3) @ drop 3 ?s)]"
    by blast
  then have "\<not> boundaryAt ?s 5" "\<not> boundaryAt ?s 8" using len by simp_all
  moreover from r e1 e2 have "splitSqlStatements ?s = [js ''A;'', js '''b;'' @ [0x0A] @ js ''c;'']"
    by simp
  ultimately show ?thesis by blast
qed

end
